theory Spec2Isabelle
  imports Complex_Main
begin

section \<open>Face recognition pipeline: configuration and errors\<close>

text \<open>
  The development embeds the matcher, the face normalizer and the frame loop of
  \<^verbatim>\<open>FaceDetection/04_recognition_realtime.py\<close> and
  \<^verbatim>\<open>FaceDetection/02_detect_and_align_faces.py\<close>.

  Modelling conventions.
  \<^item> A numpy float is a real number: arithmetic is exact, there is no rounding and no NaN.
    The results below are those that do not depend on how numpy rounds a distance: they
    are about which index the scan selects among given distances, about comparisons with
    a threshold, and about integer box arithmetic. Statements about the exact values of
    \<open>cosine_distance\<close> and \<open>euclidean_distance\<close> on unit vectors are not made here,
    since numpy's rounded values differ from the exact ones.
  \<^item> A one-dimensional numpy array is a list of reals.
  \<^item> A Python int is an \<open>int\<close>.
  \<^item> An image is its shape (rows, columns); pixel contents are opaque.
  \<^item> A raised exception is the \<open>Inl\<close> branch of a sum type.
\<close>

datatype error = ValueError | IndexError | Cv2Error | ExternalError

text \<open>Constants of \<^verbatim>\<open>config.py\<close>.\<close>

definition IMAGE_SIZE :: int where
  "IMAGE_SIZE = 160"

definition CONFIDENCE_THRESHOLD :: real where
  "CONFIDENCE_THRESHOLD = 0.9"

definition DISTANCE_THRESHOLD :: real where
  "DISTANCE_THRESHOLD = 0.6"

section \<open>Vectors and the two distance metrics\<close>

type_synonym vec = "real list"

text \<open>The sum of products of two lists of equal length.\<close>

definition dot :: "vec \<Rightarrow> vec \<Rightarrow> real" where
  "dot a b = sum_list (map2 (*) a b)"

text \<open>\<^verbatim>\<open>np.dot\<close> on two one-dimensional arrays: the shapes must agree.\<close>

definition np_dot :: "vec \<Rightarrow> vec \<Rightarrow> error + real" where
  "np_dot a b = (if length a = length b then Inr (dot a b) else Inl ValueError)"

text \<open>\<^verbatim>\<open>np.linalg.norm\<close> on a one-dimensional array: the 2-norm.\<close>

definition np_norm :: "vec \<Rightarrow> real" where
  "np_norm v = sqrt (sum_list (map (\<lambda>x. x * x) v))"

text \<open>
  \<^verbatim>\<open>a - b\<close> on two one-dimensional arrays, with numpy broadcasting: equal
  lengths subtract elementwise, an array of length one is stretched, anything else raises.
\<close>

definition np_sub :: "vec \<Rightarrow> vec \<Rightarrow> error + vec" where
  "np_sub a b =
     (if length a = length b then Inr (map2 (-) a b)
      else if length a = 1 then Inr (map (\<lambda>y. hd a - y) b)
      else if length b = 1 then Inr (map (\<lambda>x. x - hd b) a)
      else Inl ValueError)"

definition euclidean_distance :: "vec \<Rightarrow> vec \<Rightarrow> error + real" where
  "euclidean_distance embedding1 embedding2 =
     (case np_sub embedding1 embedding2 of
        Inl e \<Rightarrow> Inl e
      | Inr d \<Rightarrow> Inr (np_norm d))"

definition cosine_distance :: "vec \<Rightarrow> vec \<Rightarrow> error + real" where
  "cosine_distance embedding1 embedding2 =
     (case np_dot embedding1 embedding2 of
        Inl e \<Rightarrow> Inl e
      | Inr dot_product \<Rightarrow> Inr (1 - dot_product))"

section \<open>The matcher\<close>

text \<open>
  The pickled database: a matrix of embeddings (one row per enrolled image) and the array
  of labels built alongside it.
\<close>

record database =
  embeddings :: "vec list"
  labels :: "string list"

text \<open>The loop of \<^verbatim>\<open>recognize_face\<close> that fills \<^verbatim>\<open>distances\<close>.\<close>

fun compute_distances :: "bool \<Rightarrow> vec \<Rightarrow> vec list \<Rightarrow> error + real list" where
  "compute_distances use_cosine face_embedding [] = Inr []"
| "compute_distances use_cosine face_embedding (db_embedding # rest) =
     (case (if use_cosine then cosine_distance face_embedding db_embedding
            else euclidean_distance face_embedding db_embedding) of
        Inl e \<Rightarrow> Inl e
      | Inr distance \<Rightarrow>
          (case compute_distances use_cosine face_embedding rest of
             Inl e \<Rightarrow> Inl e
           | Inr ds \<Rightarrow> Inr (distance # ds)))"

text \<open>
  \<^verbatim>\<open>np.argmin\<close>: a left-to-right scan that keeps the first occurrence of the
  smallest value; an empty array raises \<^verbatim>\<open>ValueError\<close>.
\<close>

fun argmin_scan :: "nat \<Rightarrow> real \<Rightarrow> nat \<Rightarrow> real list \<Rightarrow> nat" where
  "argmin_scan best_i best i [] = best_i"
| "argmin_scan best_i best i (x # xs) =
     (if x < best then argmin_scan i x (Suc i) xs
      else argmin_scan best_i best (Suc i) xs)"

definition np_argmin :: "real list \<Rightarrow> error + nat" where
  "np_argmin ds = (case ds of [] \<Rightarrow> Inl ValueError | d # rest \<Rightarrow> Inr (argmin_scan 0 d 1 rest))"

text \<open>
  \<^verbatim>\<open>recognize_face\<close>, with the accept threshold as a parameter. The label lookup
  raises \<^verbatim>\<open>IndexError\<close> when the label array is shorter than the index.
\<close>

definition recognize_face_with ::
  "real \<Rightarrow> database \<Rightarrow> vec \<Rightarrow> bool \<Rightarrow> error + (string option \<times> real)" where
  "recognize_face_with threshold db face_embedding use_cosine =
     (case compute_distances use_cosine face_embedding (embeddings db) of
        Inl e \<Rightarrow> Inl e
      | Inr distances \<Rightarrow>
          (case np_argmin distances of
             Inl e \<Rightarrow> Inl e
           | Inr min_distance_idx \<Rightarrow>
               (let min_distance = distances ! min_distance_idx in
                if min_distance < threshold then
                  (if min_distance_idx < length (labels db)
                   then Inr (Some (labels db ! min_distance_idx), min_distance)
                   else Inl IndexError)
                else Inr (None, min_distance))))"

text \<open>\<^verbatim>\<open>recognize_face\<close> as the module runs it, with the threshold of \<^verbatim>\<open>config.py\<close>.\<close>

definition recognize_face :: "database \<Rightarrow> vec \<Rightarrow> bool \<Rightarrow> error + (string option \<times> real)" where
  "recognize_face db face_embedding use_cosine =
     recognize_face_with DISTANCE_THRESHOLD db face_embedding use_cosine"

text \<open>
  The reliability percentage computed in \<^verbatim>\<open>draw_face_box\<close>; \<open>None\<close> is a missing
  distance.
\<close>

definition reliability :: "real option \<Rightarrow> real" where
  "reliability distance =
     (case distance of
        None \<Rightarrow> 0
      | Some d \<Rightarrow> max 0 ((0.8 - d) / 0.8 * 100))"

text \<open>The clamp of the specification, for comparison with the code's formula.\<close>

definition clamp :: "real \<Rightarrow> real \<Rightarrow> real \<Rightarrow> real" where
  "clamp v lo hi = max lo (min hi v)"

section \<open>The face normalizer\<close>

text \<open>
  An image is the pair (rows, columns) of its shape; every image has three channels.
  A detection box is \<open>(x, y, width, height)\<close>.
\<close>

type_synonym image = "nat \<times> nat"

type_synonym box = "int \<times> int \<times> int \<times> int"

text \<open>
  Python's \<^verbatim>\<open>int()\<close> on a float truncates toward zero. The products passed to it are
  \<open>0.15 * n\<close> for an integer \<open>n\<close> of pixel magnitude; the double computed for such a
  product truncates to the same integer as the exact product, so the exact product is used.
\<close>

definition py_int :: "real \<Rightarrow> int" where
  "py_int r = (if 0 \<le> r then \<lfloor>r\<rfloor> else \<lceil>r\<rceil>)"

text \<open>
  A slice bound on an axis of length \<open>n\<close>: a negative bound counts from the end, and
  the result is clamped to \<open>0..n\<close>.
\<close>

definition slice_index :: "nat \<Rightarrow> int \<Rightarrow> nat" where
  "slice_index n i = (if i < 0 then nat (max 0 (i + int n)) else min n (nat i))"

text \<open>The length of \<^verbatim>\<open>a[start:stop]\<close> on an axis of length \<open>n\<close>; an inverted slice is empty.\<close>

definition slice_len :: "nat \<Rightarrow> int \<Rightarrow> int \<Rightarrow> nat" where
  "slice_len n start stop =
     (if slice_index n stop \<le> slice_index n start then 0
      else slice_index n stop - slice_index n start)"

text \<open>The shape of \<^verbatim>\<open>image[y:y2, x:x2]\<close>.\<close>

definition crop :: "image \<Rightarrow> int \<Rightarrow> int \<Rightarrow> int \<Rightarrow> int \<Rightarrow> image" where
  "crop img y y2 x x2 = (slice_len (fst img) y y2, slice_len (snd img) x x2)"

text \<open>The attribute \<^verbatim>\<open>.size\<close>: the number of array elements.\<close>

definition image_size :: "image \<Rightarrow> nat" where
  "image_size img = fst img * snd img * 3"

text \<open>
  \<^verbatim>\<open>cv2.resize(src, (w, h))\<close>: an image of \<open>h\<close> rows and \<open>w\<close> columns; an empty source
  or a non-positive target size raises.
\<close>

definition cv2_resize :: "image \<Rightarrow> int \<times> int \<Rightarrow> error + image" where
  "cv2_resize src dsize =
     (if fst src = 0 \<or> snd src = 0 \<or> fst dsize \<le> 0 \<or> snd dsize \<le> 0 then Inl Cv2Error
      else Inr (nat (snd dsize), nat (fst dsize)))"

text \<open>\<^verbatim>\<open>align_face\<close> of \<^verbatim>\<open>02_detect_and_align_faces.py\<close>; \<open>None\<close> is the empty crop.\<close>

definition align_face :: "image \<Rightarrow> box \<Rightarrow> int \<Rightarrow> error + image option" where
  "align_face img detection_box output_size =
     (case detection_box of (x0, y0, width, height) \<Rightarrow>
        (let x = \<bar>x0\<bar>; y = \<bar>y0\<bar>;
             x2 = x + width; y2 = y + height;
             x_margin = py_int (of_int width * 0.15);
             y_margin = py_int (of_int height * 0.15);
             x = max 0 (x - x_margin);
             y = max 0 (y - y_margin);
             x2 = min (int (snd img)) (x2 + x_margin);
             y2 = min (int (fst img)) (y2 + y_margin);
             face = crop img y y2 x x2
         in if image_size face = 0 then Inr None
            else (case cv2_resize face (output_size, output_size) of
                    Inl e \<Rightarrow> Inl e
                  | Inr face_resized \<Rightarrow> Inr (Some face_resized))))"

text \<open>
  The two box positions of the specification: a box that shares no pixel with the image,
  and a box of positive width and height that lies within the image.
\<close>

definition box_outside :: "image \<Rightarrow> box \<Rightarrow> bool" where
  "box_outside img detection_box =
     (case detection_box of (x, y, width, height) \<Rightarrow>
        x + width \<le> 0 \<or> int (snd img) \<le> x \<or> y + height \<le> 0 \<or> int (fst img) \<le> y)"

definition box_inside :: "image \<Rightarrow> box \<Rightarrow> bool" where
  "box_inside img detection_box =
     (case detection_box of (x, y, width, height) \<Rightarrow>
        0 \<le> x \<and> 0 \<le> y \<and> 0 < width \<and> 0 < height
        \<and> x + width \<le> int (snd img) \<and> y + height \<le> int (fst img))"

section \<open>The frame loop\<close>

text \<open>A detection of the external detector: the keys \<^verbatim>\<open>'box'\<close> and \<^verbatim>\<open>'confidence'\<close>.\<close>

record detection =
  box :: box
  confidence :: real

text \<open>
  An entry of \<^verbatim>\<open>current_detected_faces\<close> and of \<^verbatim>\<open>active_faces\<close>: the keys
  \<^verbatim>\<open>'detection'\<close>, \<^verbatim>\<open>'name'\<close> and \<^verbatim>\<open>'distance'\<close>.
\<close>

record face_data =
  face_detection :: detection
  face_name :: "string option"
  face_distance :: real

text \<open>The key read by \<^verbatim>\<open>cv2.waitKey\<close> at the end of an iteration.\<close>

datatype key = KeyQ | KeyC | KeyOther

text \<open>
  What the environment delivers in one iteration of the loop: the flag and the frame of
  \<^verbatim>\<open>cap.read()\<close>, what the detector does on that frame (a list of detections, or an
  exception), what the embedding model does on the crop \<^verbatim>\<open>rgb_frame[y1:y2, x1:x2]\<close> of
  that frame (a raw embedding, or an exception), and the key pressed.
\<close>

record frame_input =
  ret :: bool
  frame :: image
  detect_faces :: "error + detection list"
  embedder_embeddings :: "int \<times> int \<times> int \<times> int \<Rightarrow> error + vec"
  wait_key :: key

text \<open>The local variables of \<^verbatim>\<open>run\<close> that live across iterations.\<close>

record run_state =
  use_cosine :: bool
  frame_count :: int
  frames_without_detection :: int
  active_faces :: "face_data list"

definition process_every_n_frames :: int where
  "process_every_n_frames = 15"

definition PERSISTENCE_LIMIT :: int where
  "PERSISTENCE_LIMIT = 20"

text \<open>
  \<^verbatim>\<open>get_face_embedding\<close> on the crop \<open>(y1, y2, x1, x2)\<close> of a frame: resize when the
  shape differs from the model's input, embed, normalize. A zero raw embedding, on which
  numpy produces NaN, is outside this model.
\<close>

definition get_face_embedding :: "frame_input \<Rightarrow> int \<times> int \<times> int \<times> int \<Rightarrow> error + vec" where
  "get_face_embedding fr region =
     (case region of (y1, y2, x1, x2) \<Rightarrow>
        (let face_image = crop (frame fr) y1 y2 x1 x2 in
         (case (if face_image \<noteq> (nat IMAGE_SIZE, nat IMAGE_SIZE)
                then cv2_resize face_image (IMAGE_SIZE, IMAGE_SIZE)
                else Inr face_image) of
            Inl e \<Rightarrow> Inl e
          | Inr resized \<Rightarrow>
              (case embedder_embeddings fr region of
                 Inl e \<Rightarrow> Inl e
               | Inr embedding \<Rightarrow> Inr (map (\<lambda>v. v / np_norm embedding) embedding)))))"

text \<open>The slice bounds \<open>(y1, y2, x1, x2)\<close> computed for a detection in the live loop.\<close>

definition face_region :: "image \<Rightarrow> box \<Rightarrow> int \<times> int \<times> int \<times> int" where
  "face_region rgb_frame detection_box =
     (case detection_box of (x0, y0, width, height) \<Rightarrow>
        (let x = \<bar>x0\<bar>; y = \<bar>y0\<bar>;
             margin = py_int (0.15 * of_int (max width height));
             x1 = max 0 (x - margin);
             y1 = max 0 (y - margin);
             x2 = min (int (snd rgb_frame)) (x + width + margin);
             y2 = min (int (fst rgb_frame)) (y + height + margin)
         in (y1, y2, x1, x2)))"

text \<open>
  The \<^verbatim>\<open>for detection in detections\<close> loop of one detection cycle. The second
  component is the outcome: the accumulated \<^verbatim>\<open>current_detected_faces\<close>, or the exception
  that left the loop. The first component records, in order, the detections whose crop was
  handed to \<^verbatim>\<open>get_face_embedding\<close>.
\<close>

fun process_detections ::
  "database \<Rightarrow> bool \<Rightarrow> frame_input \<Rightarrow> detection list \<Rightarrow> face_data list
   \<Rightarrow> detection list \<times> (error + face_data list)" where
  "process_detections db uc fr [] current_detected_faces = ([], Inr current_detected_faces)"
| "process_detections db uc fr (d # rest) current_detected_faces =
     (if confidence d < CONFIDENCE_THRESHOLD
      then process_detections db uc fr rest current_detected_faces
      else if image_size (case face_region (frame fr) (box d) of
                            (y1, y2, x1, x2) \<Rightarrow> crop (frame fr) y1 y2 x1 x2) = 0
      then process_detections db uc fr rest current_detected_faces
      else (case get_face_embedding fr (face_region (frame fr) (box d)) of
              Inl e \<Rightarrow> ([d], Inl e)
            | Inr face_embedding \<Rightarrow>
                (case recognize_face db face_embedding uc of
                   Inl e \<Rightarrow> ([d], Inl e)
                 | Inr (name, distance) \<Rightarrow>
                     (case process_detections db uc fr rest
                             (current_detected_faces @
                                [\<lparr>face_detection = d, face_name = name,
                                  face_distance = distance\<rparr>]) of
                        (handed, outcome) \<Rightarrow> (d # handed, outcome)))))"

text \<open>
  What one iteration shows: whether the detection phase ran and how it ended
  (\<open>None\<close>: skipped; \<open>Some (Inl e)\<close>: the exception caught by \<^verbatim>\<open>except\<close>;
  \<open>Some (Inr fs)\<close>: the cycle's \<^verbatim>\<open>current_detected_faces\<close>), the detections handed to
  the embedding step, and the \<^verbatim>\<open>active_faces\<close> drawn in phase 3.
\<close>

record frame_obs =
  cycle :: "(error + face_data list) option"
  embedded :: "detection list"
  drawn :: "face_data list"

text \<open>Phase 1: the detection cycle, on every frame whose counter is a multiple of 15.\<close>

definition detection_phase ::
  "database \<Rightarrow> run_state \<Rightarrow> frame_input
   \<Rightarrow> run_state \<times> (error + face_data list) option \<times> detection list" where
  "detection_phase db s fr =
     (if frame_count s mod process_every_n_frames = 0 then
        (case detect_faces fr of
           Inl e \<Rightarrow> (s, Some (Inl e), [])
         | Inr detections \<Rightarrow>
             (case process_detections db (use_cosine s) fr detections [] of
                (handed, Inl e) \<Rightarrow> (s, Some (Inl e), handed)
              | (handed, Inr current_detected_faces) \<Rightarrow>
                  (if length current_detected_faces > 0
                   then (s\<lparr>active_faces := current_detected_faces,
                           frames_without_detection := 0\<rparr>,
                         Some (Inr current_detected_faces), handed)
                   else (s, Some (Inr current_detected_faces), handed))))
      else (s, None, []))"

text \<open>One iteration of the \<^verbatim>\<open>while True\<close> loop on a frame that was read.\<close>

definition step :: "database \<Rightarrow> run_state \<Rightarrow> frame_input \<Rightarrow> run_state \<times> frame_obs" where
  "step db s fr =
     (let s1 = s\<lparr>frame_count := frame_count s + 1,
                 frames_without_detection := frames_without_detection s + 1\<rparr>
      in case detection_phase db s1 fr of
           (s2, outcome, handed) \<Rightarrow>
             (let s3 = (if frames_without_detection s2 > PERSISTENCE_LIMIT
                        then s2\<lparr>active_faces := []\<rparr> else s2);
                  ob = \<lparr>cycle = outcome, embedded = handed, drawn = active_faces s3\<rparr>;
                  s4 = (if wait_key fr = KeyC
                        then s3\<lparr>use_cosine := \<not> use_cosine s3\<rparr> else s3)
              in (s4, ob)))"

text \<open>
  The loop over the frames the camera delivers: it ends at the first failed read and after
  the iteration in which \<^verbatim>\<open>q\<close> is pressed. The result lists one observation per
  processed frame.
\<close>

fun run_loop :: "database \<Rightarrow> run_state \<Rightarrow> frame_input list \<Rightarrow> frame_obs list" where
  "run_loop db s [] = []"
| "run_loop db s (fr # frs) =
     (if \<not> ret fr then []
      else (case step db s fr of
              (s', ob) \<Rightarrow> ob # (if wait_key fr = KeyQ then [] else run_loop db s' frs)))"

text \<open>\<^verbatim>\<open>run\<close>: nothing happens when the camera cannot be opened.\<close>

definition initial_state :: run_state where
  "initial_state =
     \<lparr>use_cosine = True, frame_count = 0, frames_without_detection = 0, active_faces = []\<rparr>"

definition run :: "database \<Rightarrow> bool \<Rightarrow> frame_input list \<Rightarrow> frame_obs list" where
  "run db is_opened frames = (if \<not> is_opened then [] else run_loop db initial_state frames)"

text \<open>
  Vocabulary of the claims about a cycle. A cycle is successful when it ends with a
  non-empty \<^verbatim>\<open>current_detected_faces\<close>. A detection survives when it passes the confidence
  floor and its crop is not empty. Processing a surviving detection fails with \<open>e\<close> when
  the embedding step or the matcher raises \<open>e\<close>.
\<close>

definition successful :: "frame_obs \<Rightarrow> bool" where
  "successful ob =
     (case cycle ob of
        None \<Rightarrow> False
      | Some (Inl e) \<Rightarrow> False
      | Some (Inr current_detected_faces) \<Rightarrow> current_detected_faces \<noteq> [])"

definition survives :: "frame_input \<Rightarrow> detection \<Rightarrow> bool" where
  "survives fr d =
     (\<not> confidence d < CONFIDENCE_THRESHOLD
      \<and> image_size (case face_region (frame fr) (box d) of
                       (y1, y2, x1, x2) \<Rightarrow> crop (frame fr) y1 y2 x1 x2) \<noteq> 0)"

definition fails :: "database \<Rightarrow> bool \<Rightarrow> frame_input \<Rightarrow> detection \<Rightarrow> error \<Rightarrow> bool" where
  "fails db uc fr d e =
     (case get_face_embedding fr (face_region (frame fr) (box d)) of
        Inl e' \<Rightarrow> e' = e
      | Inr face_embedding \<Rightarrow> recognize_face db face_embedding uc = Inl e)"

text \<open>
  Example data for the concrete instances below: a one-row store, a detector result with
  two confident faces in a 480 by 640 frame, an embedding model that raises on one crop
  and returns a fixed raw embedding on every other, and three frames built from them.
\<close>

definition example_database :: database where
  "example_database = \<lparr>embeddings = [[1]], labels = [''Ana'']\<rparr>"

definition left_face :: detection where
  "left_face = \<lparr>box = (10, 10, 100, 100), confidence = 0.99\<rparr>"

definition right_face :: detection where
  "right_face = \<lparr>box = (300, 10, 100, 100), confidence = 0.99\<rparr>"

definition raising_on :: "int \<times> int \<times> int \<times> int \<Rightarrow> int \<times> int \<times> int \<times> int \<Rightarrow> error + vec" where
  "raising_on bad region = (if region = bad then Inl ExternalError else Inr [2])"

definition two_face_frame :: frame_input where
  "two_face_frame =
     \<lparr>ret = True, frame = (480, 640), detect_faces = Inr [left_face, right_face],
      embedder_embeddings = raising_on (0, 125, 0, 125), wait_key = KeyOther\<rparr>"

definition one_face_frame :: frame_input where
  "one_face_frame =
     \<lparr>ret = True, frame = (480, 640), detect_faces = Inr [right_face],
      embedder_embeddings = raising_on (0, 125, 0, 125), wait_key = KeyOther\<rparr>"

definition no_face_frame :: frame_input where
  "no_face_frame =
     \<lparr>ret = True, frame = (480, 640), detect_faces = Inr [],
      embedder_embeddings = raising_on (0, 125, 0, 125), wait_key = KeyOther\<rparr>"

definition before_cycle :: run_state where
  "before_cycle =
     \<lparr>use_cosine = True, frame_count = 14, frames_without_detection = 3, active_faces = []\<rparr>"

section \<open>The nearest record\<close>

text \<open>
  The scan returns an index of the list whose value is a lower bound of all values and
  strictly below every value before it.
\<close>

lemma argmin_scan_spec:
  assumes "bi < length pre" "b = pre ! bi" "\<forall>j<length pre. b \<le> pre ! j" "\<forall>j<bi. b < pre ! j"
  shows "argmin_scan bi b (length pre) xs < length (pre @ xs)
       \<and> (\<forall>j<length (pre @ xs). (pre @ xs) ! argmin_scan bi b (length pre) xs \<le> (pre @ xs) ! j)
       \<and> (\<forall>j<argmin_scan bi b (length pre) xs.
             (pre @ xs) ! argmin_scan bi b (length pre) xs < (pre @ xs) ! j)"
  using assms
proof (induction xs arbitrary: pre bi b)
  case Nil
  then show ?case by simp
next
  case (Cons x xs)
  show ?case
  proof (cases "x < b")
    case True
    have "argmin_scan (length pre) x (length (pre @ [x])) xs < length ((pre @ [x]) @ xs)
       \<and> (\<forall>j<length ((pre @ [x]) @ xs).
            ((pre @ [x]) @ xs) ! argmin_scan (length pre) x (length (pre @ [x])) xs
              \<le> ((pre @ [x]) @ xs) ! j)
       \<and> (\<forall>j<argmin_scan (length pre) x (length (pre @ [x])) xs.
            ((pre @ [x]) @ xs) ! argmin_scan (length pre) x (length (pre @ [x])) xs
              < ((pre @ [x]) @ xs) ! j)"
    proof (rule Cons.IH)
      show "length pre < length (pre @ [x])" by simp
      show "x = (pre @ [x]) ! length pre" by simp
      show "\<forall>j<length (pre @ [x]). x \<le> (pre @ [x]) ! j"
        using Cons.prems True by (auto simp: nth_append less_Suc_eq)
      show "\<forall>j<length pre. x < (pre @ [x]) ! j"
        using Cons.prems True by (auto simp: nth_append)
    qed
    then show ?thesis using True by simp
  next
    case False
    have "argmin_scan bi b (length (pre @ [x])) xs < length ((pre @ [x]) @ xs)
       \<and> (\<forall>j<length ((pre @ [x]) @ xs).
            ((pre @ [x]) @ xs) ! argmin_scan bi b (length (pre @ [x])) xs
              \<le> ((pre @ [x]) @ xs) ! j)
       \<and> (\<forall>j<argmin_scan bi b (length (pre @ [x])) xs.
            ((pre @ [x]) @ xs) ! argmin_scan bi b (length (pre @ [x])) xs
              < ((pre @ [x]) @ xs) ! j)"
    proof (rule Cons.IH)
      show "bi < length (pre @ [x])" using Cons.prems by simp
      show "b = (pre @ [x]) ! bi" using Cons.prems by (simp add: nth_append)
      show "\<forall>j<length (pre @ [x]). b \<le> (pre @ [x]) ! j"
        using Cons.prems False by (auto simp: nth_append less_Suc_eq)
      show "\<forall>j<bi. b < (pre @ [x]) ! j"
        using Cons.prems by (auto simp: nth_append)
    qed
    then show ?thesis using False by simp
  qed
qed

lemma np_argmin_spec:
  assumes "ds \<noteq> []"
  shows "\<exists>i. np_argmin ds = Inr i \<and> i < length ds
           \<and> (\<forall>j<length ds. ds ! i \<le> ds ! j) \<and> (\<forall>j<i. ds ! i < ds ! j)"
proof -
  obtain d rest where ds: "ds = d # rest"
    using assms by (cases ds) auto
  have "argmin_scan 0 d (length [d]) rest < length ([d] @ rest)
       \<and> (\<forall>j<length ([d] @ rest).
            ([d] @ rest) ! argmin_scan 0 d (length [d]) rest \<le> ([d] @ rest) ! j)
       \<and> (\<forall>j<argmin_scan 0 d (length [d]) rest.
            ([d] @ rest) ! argmin_scan 0 d (length [d]) rest < ([d] @ rest) ! j)"
    by (rule argmin_scan_spec) simp_all
  then show ?thesis by (simp add: ds np_argmin_def)
qed

lemma metric_defined:
  "length a = length b \<Longrightarrow>
   \<exists>d. (if uc then cosine_distance a b else euclidean_distance a b) = Inr d"
  by (simp add: cosine_distance_def euclidean_distance_def np_dot_def np_sub_def)

lemma compute_distances_ok:
  assumes "\<forall>e\<in>set es. length e = length q"
  shows "\<exists>ds. compute_distances uc q es = Inr ds \<and> length ds = length es
           \<and> (\<forall>k<length ds. (if uc then cosine_distance q (es ! k)
                                else euclidean_distance q (es ! k)) = Inr (ds ! k))"
  using assms
proof (induction es)
  case Nil
  then show ?case by simp
next
  case (Cons e es)
  from Cons.prems have "length q = length e" by simp
  then obtain d where d: "(if uc then cosine_distance q e else euclidean_distance q e) = Inr d"
    using metric_defined by blast
  from Cons obtain ds where ds: "compute_distances uc q es = Inr ds" "length ds = length es"
    "\<forall>k<length ds. (if uc then cosine_distance q (es ! k)
                      else euclidean_distance q (es ! k)) = Inr (ds ! k)"
    by auto
  have "compute_distances uc q (e # es) = Inr (d # ds)"
    using d ds(1) by (cases uc) simp_all
  moreover have "\<forall>k<length (d # ds). (if uc then cosine_distance q ((e # es) ! k)
                                else euclidean_distance q ((e # es) ! k)) = Inr ((d # ds) ! k)"
    using d ds(3) by (auto simp: nth_Cons split: nat.splits)
  ultimately show ?case using ds(2) by simp
qed

lemma recognize_face_scan:
  assumes "embeddings db \<noteq> []"
    and "length (labels db) = length (embeddings db)"
    and "\<forall>e\<in>set (embeddings db). length e = length q"
  shows "\<exists>ds i. compute_distances uc q (embeddings db) = Inr ds
           \<and> length ds = length (embeddings db)
           \<and> (\<forall>k<length ds. (if uc then cosine_distance q (embeddings db ! k)
                                else euclidean_distance q (embeddings db ! k)) = Inr (ds ! k))
           \<and> np_argmin ds = Inr i
           \<and> i < length ds \<and> (\<forall>j<length ds. ds ! i \<le> ds ! j) \<and> (\<forall>j<i. ds ! i < ds ! j)
           \<and> recognize_face_with thr db q uc =
               Inr (if ds ! i < thr then Some (labels db ! i) else None, ds ! i)"
proof -
  obtain ds where ds: "compute_distances uc q (embeddings db) = Inr ds"
    "length ds = length (embeddings db)"
    "\<forall>k<length ds. (if uc then cosine_distance q (embeddings db ! k)
                      else euclidean_distance q (embeddings db ! k)) = Inr (ds ! k)"
    using compute_distances_ok [OF assms(3)] by blast
  have "ds \<noteq> []" using ds(2) assms(1) by auto
  then obtain i where i: "np_argmin ds = Inr i" "i < length ds"
    "\<forall>j<length ds. ds ! i \<le> ds ! j" "\<forall>j<i. ds ! i < ds ! j"
    using np_argmin_spec by blast
  have "recognize_face_with thr db q uc =
               Inr (if ds ! i < thr then Some (labels db ! i) else None, ds ! i)"
    using ds(1,2) i(1,2) assms(2) by (simp add: recognize_face_with_def)
  then show ?thesis using ds i by blast
qed

text \<open>
  C2. On a non-empty store whose rows have the dimension of the query and whose label
  array is as long as the matrix, \<open>recognize_face\<close> returns the smallest of the distances
  to the stored rows under the selected metric, taken at the first index that attains it;
  the identity is that row's label when the distance is strictly below the threshold and
  \<open>None\<close> otherwise, and the distance is returned in both cases.
\<close>

theorem recognize_face_min:
  assumes "embeddings db \<noteq> []"
    and "length (labels db) = length (embeddings db)"
    and "\<forall>e\<in>set (embeddings db). length e = length q"
  shows "\<exists>ds i. length ds = length (embeddings db)
           \<and> (\<forall>k<length ds. (if uc then cosine_distance q (embeddings db ! k)
                                else euclidean_distance q (embeddings db ! k)) = Inr (ds ! k))
           \<and> i < length ds \<and> (\<forall>j<length ds. ds ! i \<le> ds ! j) \<and> (\<forall>j<i. ds ! i < ds ! j)
           \<and> recognize_face_with thr db q uc =
               Inr (if ds ! i < thr then Some (labels db ! i) else None, ds ! i)"
  using recognize_face_scan [OF assms, of uc thr] by blast

theorem recognize_face_min_witness:
  "embeddings \<lparr>embeddings = [[1, 0], [0, 1], [0, 1]], labels = [''Ana'', ''Luis'', ''Eva'']\<rparr> \<noteq> []
   \<and> recognize_face_with (6/10)
        \<lparr>embeddings = [[1, 0], [0, 1], [0, 1]], labels = [''Ana'', ''Luis'', ''Eva'']\<rparr>
        [0, 1] True
      = Inr (Some ''Luis'', 0)"
proof -
  let ?db = "\<lparr>embeddings = [[1, 0], [0, 1], [0, 1]], labels = [''Ana'', ''Luis'', ''Eva'']\<rparr>"
  have h1: "embeddings ?db \<noteq> []" by simp
  have h2: "length (labels ?db) = length (embeddings ?db)" by simp
  have h3: "\<forall>e\<in>set (embeddings ?db). length e = length [0, 1 :: real]" by simp
  obtain ds i where r: "recognize_face_with (6/10) ?db [0, 1] True =
      Inr (if ds ! i < 6/10 then Some (labels ?db ! i) else None, ds ! i)"
    using recognize_face_min [OF h1 h2 h3, of True "6/10"] by blast
  have v: "recognize_face_with (6/10) ?db [0, 1] True = Inr (Some ''Luis'', 0)"
    by (simp add: recognize_face_with_def cosine_distance_def np_dot_def dot_def np_argmin_def)
  show ?thesis using r v h1 by blast
qed

text \<open>
  C9. On a store with at least one row (rows of the query's dimension, one label per row)
  \<open>recognize_face\<close> returns an identity and a distance; on the empty store the
  \<open>argmin\<close> of the empty distance array raises \<open>ValueError\<close>.
\<close>

theorem recognize_face_total_on_nonempty:
  "(embeddings db \<noteq> [] \<and> length (labels db) = length (embeddings db)
      \<and> (\<forall>e\<in>set (embeddings db). length e = length q)
    \<longrightarrow> (\<exists>identity distance. recognize_face_with thr db q uc = Inr (identity, distance)))
   \<and> (embeddings db = [] \<longrightarrow> recognize_face_with thr db q uc = Inl ValueError)"
proof (intro conjI impI)
  assume "embeddings db \<noteq> [] \<and> length (labels db) = length (embeddings db)
      \<and> (\<forall>e\<in>set (embeddings db). length e = length q)"
  then have "embeddings db \<noteq> []" "length (labels db) = length (embeddings db)"
    "\<forall>e\<in>set (embeddings db). length e = length q"
    by simp_all
  from recognize_face_scan [OF this, of uc thr]
  show "\<exists>identity distance. recognize_face_with thr db q uc = Inr (identity, distance)"
    by blast
next
  assume "embeddings db = []"
  then show "recognize_face_with thr db q uc = Inl ValueError"
    by (simp add: recognize_face_with_def np_argmin_def)
qed

theorem recognize_face_total_on_nonempty_witness:
  "embeddings \<lparr>embeddings = [[1, 0], [0, 1]], labels = [''Ana'', ''Luis'']\<rparr> \<noteq> []
   \<and> (\<exists>identity distance.
        recognize_face_with (6/10)
          \<lparr>embeddings = [[1, 0], [0, 1]], labels = [''Ana'', ''Luis'']\<rparr> [3/5, 4/5] False
        = Inr (identity, distance))
   \<and> embeddings \<lparr>embeddings = [], labels = []\<rparr> = []
   \<and> recognize_face_with (6/10) \<lparr>embeddings = [], labels = []\<rparr> [3/5, 4/5] False
      = Inl ValueError"
proof -
  let ?db = "\<lparr>embeddings = [[1, 0], [0, 1]], labels = [''Ana'', ''Luis'']\<rparr>"
  let ?empty = "\<lparr>embeddings = [] :: vec list, labels = [] :: string list\<rparr>"
  have h: "embeddings ?db \<noteq> [] \<and> length (labels ?db) = length (embeddings ?db)
      \<and> (\<forall>e\<in>set (embeddings ?db). length e = length [3/5, 4/5 :: real])"
    by simp
  have e: "embeddings ?empty = []" by simp
  from recognize_face_total_on_nonempty [of ?db "[3/5, 4/5]" "6/10" False] h
  have "\<exists>identity distance.
          recognize_face_with (6/10) ?db [3/5, 4/5] False = Inr (identity, distance)"
    by blast
  moreover from recognize_face_total_on_nonempty [of ?empty "[3/5, 4/5]" "6/10" False] e
  have "recognize_face_with (6/10) ?empty [3/5, 4/5] False = Inl ValueError"
    by blast
  ultimately show ?thesis by simp
qed

section \<open>Reliability\<close>

text \<open>
  C7. For every reported distance \<open>d \<ge> 0\<close> the displayed reliability is
  \<open>clamp ((R - d) / R * 100) 0 100\<close> with \<open>R = 0.8\<close>, and it lies between 0 and 100.
\<close>

theorem reliability_clamped:
  assumes "0 \<le> d"
  shows "reliability (Some d) = clamp ((0.8 - d) / 0.8 * 100) 0 100
         \<and> 0 \<le> reliability (Some d) \<and> reliability (Some d) \<le> 100"
proof -
  have "(0.8 - d) / 0.8 * 100 \<le> 100"
    using assms by simp
  then show ?thesis
    by (simp add: reliability_def clamp_def)
qed

theorem reliability_clamped_witness:
  "(0::real) \<le> 0.2 \<and> reliability (Some 0.2) = 75 \<and> reliability (Some 0.2) \<le> 100"
  using reliability_clamped [of "0.2"] by (simp add: clamp_def)

section \<open>The face normalizer: crops\<close>

text \<open>
  C8, as stated, fails: the box \<open>(100, 10, 40, 40)\<close> shares no pixel with a 100 by 100
  image (its columns start at 100), yet the margin of 6 pixels moves the left bound of the
  crop to column 94, the crop is not empty and \<open>align_face\<close> returns a resized image.
\<close>

theorem align_face_outside_counterexample:
  "box_outside (100, 100) (100, 10, 40, 40)
   \<and> align_face (100, 100) (100, 10, 40, 40) 160 = Inr (Some (160, 160))"
  by (simp add: box_outside_def align_face_def py_int_def crop_def slice_len_def
      slice_index_def image_size_def cv2_resize_def Let_def)

lemma slice_len_inside:
  assumes "0 \<le> x" "0 < w" "x + w \<le> int n" "0 \<le> m"
  shows "0 < slice_len n (max 0 (x - m)) (min (int n) (x + w + m))"
  using assms by (auto simp: slice_len_def slice_index_def)

lemma slice_len_beyond:
  "int n \<le> a \<Longrightarrow> slice_len n a b = 0"
  "int n \<le> a \<Longrightarrow> slice_len n (max 0 a) b = 0"
  by (auto simp: slice_len_def slice_index_def)

text \<open>
  C8, as the code has it. A box of positive width and height that lies within the image
  yields an output of exactly \<open>output_size\<close> by \<open>output_size\<close> pixels (for a positive
  \<open>output_size\<close>). The result is \<open>None\<close> when the box, after \<open>abs\<close> of its origin and
  after subtracting the margin, starts at or beyond the right or the bottom edge of the
  image.
\<close>

theorem align_face_inside_and_beyond:
  "(box_inside img (x, y, w, h) \<and> 0 < output_size
      \<longrightarrow> align_face img (x, y, w, h) output_size
            = Inr (Some (nat output_size, nat output_size)))
   \<and> (int (snd img) \<le> \<bar>x\<bar> - py_int (of_int w * 0.15)
        \<or> int (fst img) \<le> \<bar>y\<bar> - py_int (of_int h * 0.15)
      \<longrightarrow> align_face img (x, y, w, h) output_size = Inr None)"
proof (intro conjI impI)
  assume a: "box_inside img (x, y, w, h) \<and> 0 < output_size"
  then have b: "0 \<le> x" "0 \<le> y" "0 < w" "0 < h" "x + w \<le> int (snd img)"
    "y + h \<le> int (fst img)" "0 < output_size"
    by (simp_all add: box_inside_def)
  have mx: "0 \<le> py_int (of_int w * 0.15)" and my: "0 \<le> py_int (of_int h * 0.15)"
    using b by (simp_all add: py_int_def)
  show "align_face img (x, y, w, h) output_size
            = Inr (Some (nat output_size, nat output_size))"
    using b slice_len_inside [OF b(1) b(3) b(5) mx] slice_len_inside [OF b(2) b(4) b(6) my]
    by (simp add: align_face_def Let_def crop_def image_size_def cv2_resize_def)
next
  assume a: "int (snd img) \<le> \<bar>x\<bar> - py_int (of_int w * 0.15)
        \<or> int (fst img) \<le> \<bar>y\<bar> - py_int (of_int h * 0.15)"
  from a show "align_face img (x, y, w, h) output_size = Inr None"
    by (auto simp: align_face_def Let_def crop_def image_size_def slice_len_beyond)
qed

theorem align_face_inside_and_beyond_witness:
  "(box_inside (100, 100) (10, 10, 40, 40) \<and> (0::int) < 160)
   \<and> align_face (100, 100) (10, 10, 40, 40) 160 = Inr (Some (160, 160))
   \<and> int (snd (100 :: nat, 100 :: nat)) \<le> \<bar>120\<bar> - py_int (of_int 40 * 0.15)
   \<and> align_face (100, 100) (120, 10, 40, 40) 160 = Inr None"
proof -
  have h1: "box_inside (100, 100) (10, 10, 40, 40) \<and> (0::int) < 160"
    by (simp add: box_inside_def)
  have h2: "int (snd (100 :: nat, 100 :: nat)) \<le> \<bar>120\<bar> - py_int (of_int 40 * 0.15)"
    by (simp add: py_int_def)
  from align_face_inside_and_beyond [of "(100, 100)" 10 10 40 40 160] h1
  have c1: "align_face (100, 100) (10, 10, 40, 40) 160 = Inr (Some (160, 160))"
    by simp
  from align_face_inside_and_beyond [of "(100, 100)" 120 10 40 40 160] h2
  have c2: "align_face (100, 100) (120, 10, 40, 40) 160 = Inr None"
    by blast
  show ?thesis using h1 h2 c1 c2 by blast
qed


section \<open>The frame scheduler\<close>

lemma step_frame_count:
  "frame_count (fst (step db s fr)) = frame_count s + 1"
  by (auto simp: step_def detection_phase_def Let_def split: sum.splits prod.splits)

lemma step_cycle_ran:
  "(cycle (snd (step db s fr)) \<noteq> None) = ((frame_count s + 1) mod 15 = 0)"
  by (auto simp: step_def detection_phase_def process_every_n_frames_def Let_def
      split: sum.splits prod.splits)

lemma run_loop_schedule:
  "map (\<lambda>ob. cycle ob \<noteq> None) (run_loop db s frs) =
   map (\<lambda>i. (frame_count s + int i + 1) mod 15 = 0) [0..<length (run_loop db s frs)]"
proof (induction frs arbitrary: s)
  case Nil
  then show ?case by simp
next
  case (Cons fr frs)
  show ?case
  proof (cases "ret fr")
    case False
    then show ?thesis by simp
  next
    case True
    obtain s' ob where st: "step db s fr = (s', ob)" by (cases "step db s fr")
    have fc: "frame_count s' = frame_count s + 1"
      using step_frame_count [of db s fr] st by simp
    have ran: "(cycle ob \<noteq> None) = ((frame_count s + 1) mod 15 = 0)"
      using step_cycle_ran [of db s fr] st by simp
    show ?thesis
    proof (cases "wait_key fr = KeyQ")
      case True
      then show ?thesis using \<open>ret fr\<close> st ran by simp
    next
      case False
      have shift: "[0..<Suc (length (run_loop db s' frs))]
                   = 0 # map Suc [0..<length (run_loop db s' frs)]"
        by (simp add: map_Suc_upt upt_conv_Cons del: upt_Suc)
      have "map (\<lambda>ob. cycle ob \<noteq> None) (run_loop db s' frs) =
            map (\<lambda>i. (frame_count s + int (Suc i) + 1) mod 15 = 0)
              [0..<length (run_loop db s' frs)]"
        using Cons.IH [of s'] fc by (simp add: add.commute add.left_commute)
      then have "map (\<lambda>ob. cycle ob \<noteq> None) (ob # run_loop db s' frs) =
            map (\<lambda>i. (frame_count s + int i + 1) mod 15 = 0)
              [0..<Suc (length (run_loop db s' frs))]"
        unfolding shift using ran by (simp add: comp_def)
      then show ?thesis
        using \<open>ret fr\<close> st False by simp
    qed
  qed
qed

lemma count_multiples:
  "length (filter (\<lambda>i. (int i + 1) mod 15 = 0) [0..<n]) = n div 15"
proof (induction n)
  case 0
  then show ?case by simp
next
  case (Suc n)
  have "((int n + 1) mod 15 = 0) = (Suc n mod 15 = 0)"
    by presburger
  moreover have "Suc n div 15 = (if Suc n mod 15 = 0 then Suc (n div 15) else n div 15)"
    by presburger
  ultimately show ?case using Suc by simp
qed

text \<open>
  C4. In every run, whatever the detector and the embedding model do, the detection phase
  runs on exactly the processed frames whose 1-based number is a multiple of 15, and so
  \<open>F div 15\<close> times in a run of \<open>F\<close> processed frames.
\<close>

theorem detection_every_15th_frame:
  "map (\<lambda>ob. cycle ob \<noteq> None) (run db is_opened frames) =
     map (\<lambda>i. (int i + 1) mod 15 = 0) [0..<length (run db is_opened frames)]
   \<and> length (filter (\<lambda>ob. cycle ob \<noteq> None) (run db is_opened frames))
       = length (run db is_opened frames) div 15"
proof -
  have m: "map (\<lambda>ob. cycle ob \<noteq> None) (run db is_opened frames) =
     map (\<lambda>i. (int i + 1) mod 15 = 0) [0..<length (run db is_opened frames)]"
    using run_loop_schedule [of db initial_state frames]
    by (simp add: run_def initial_state_def)
  have "length (filter (\<lambda>ob. cycle ob \<noteq> None) (run db is_opened frames))
        = length (filter id (map (\<lambda>ob. cycle ob \<noteq> None) (run db is_opened frames)))"
    by (simp add: filter_map comp_def)
  also have "\<dots> = length (filter (\<lambda>i. (int i + 1) mod 15 = 0)
                        [0..<length (run db is_opened frames)])"
    by (simp only: m) (simp add: filter_map comp_def)
  also have "\<dots> = length (run db is_opened frames) div 15"
    by (rule count_multiples)
  finally show ?thesis using m by simp
qed

section \<open>The persistence tracker\<close>

lemma step_success:
  assumes "cycle (snd (step db s fr)) = Some (Inr rs)" "rs \<noteq> []"
  shows "frames_without_detection (fst (step db s fr)) = 0
       \<and> active_faces (fst (step db s fr)) = rs
       \<and> drawn (snd (step db s fr)) = rs"
  using assms
  by (auto simp: step_def detection_phase_def PERSISTENCE_LIMIT_def Let_def
      split: sum.splits prod.splits if_splits)

lemma step_no_success:
  assumes "\<not> successful (snd (step db s fr))"
  shows "frames_without_detection (fst (step db s fr)) = frames_without_detection s + 1
       \<and> active_faces (fst (step db s fr))
           = (if frames_without_detection s + 1 > 20 then [] else active_faces s)
       \<and> drawn (snd (step db s fr)) = active_faces (fst (step db s fr))"
  using assms
  by (auto simp: step_def detection_phase_def PERSISTENCE_LIMIT_def Let_def successful_def
      split: sum.splits prod.splits if_splits)

lemma aging:
  assumes "j < length (run_loop db s frs)"
    and "\<forall>i\<le>j. \<not> successful (run_loop db s frs ! i)"
  shows "drawn (run_loop db s frs ! j)
         = (if frames_without_detection s + int j + 1 > 20 then [] else active_faces s)"
  using assms
proof (induction frs arbitrary: s j)
  case Nil
  then show ?case by simp
next
  case (Cons fr frs)
  from Cons.prems(1) have r: "ret fr" by (auto split: if_splits)
  define s' where "s' = fst (step db s fr)"
  define ob where "ob = snd (step db s fr)"
  have st: "step db s fr = (s', ob)" by (simp add: s'_def ob_def)
  have tr: "run_loop db s (fr # frs)
            = ob # (if wait_key fr = KeyQ then [] else run_loop db s' frs)"
    using r st by simp
  have "\<not> successful ob" using Cons.prems(2) tr by auto
  then have ns: "frames_without_detection s' = frames_without_detection s + 1"
    "active_faces s' = (if frames_without_detection s + 1 > 20 then [] else active_faces s)"
    "drawn ob = active_faces s'"
    using step_no_success [of db s fr] by (simp_all add: s'_def ob_def)
  show ?case
  proof (cases j)
    case 0
    then show ?thesis using tr ns by simp
  next
    case (Suc k)
    then have nq: "wait_key fr \<noteq> KeyQ" using Cons.prems(1) tr by (auto split: if_splits)
    have k: "k < length (run_loop db s' frs)" using Cons.prems(1) tr nq Suc by simp
    have "\<forall>i\<le>k. \<not> successful (run_loop db s' frs ! i)"
    proof (intro allI impI)
      fix i assume "i \<le> k"
      then have "Suc i \<le> j" using Suc by simp
      then have "\<not> successful (run_loop db s (fr # frs) ! Suc i)" using Cons.prems(2) by blast
      then show "\<not> successful (run_loop db s' frs ! i)" using tr nq by simp
    qed
    from Cons.IH [OF k this]
    have "drawn (run_loop db s' frs ! k)
          = (if frames_without_detection s' + int k + 1 > 20 then [] else active_faces s')" .
    then show ?thesis using tr nq Suc ns by auto
  qed
qed

lemma run_loop_drop:
  assumes "t < length (run_loop db s frs)"
  shows "\<exists>s'. drop t (run_loop db s frs) = run_loop db s' (drop t frs)"
  using assms
proof (induction t arbitrary: s frs)
  case 0
  then show ?case by auto
next
  case (Suc t)
  then obtain fr rest where frs: "frs = fr # rest" by (cases frs) auto
  from Suc.prems frs have r: "ret fr" by (auto split: if_splits)
  obtain s1 ob where st: "step db s fr = (s1, ob)" by (cases "step db s fr")
  from Suc.prems frs r st have nq: "wait_key fr \<noteq> KeyQ" by (auto split: if_splits)
  have tr: "run_loop db s frs = ob # run_loop db s1 rest" using frs r st nq by simp
  have "t < length (run_loop db s1 rest)" using Suc.prems tr by simp
  from Suc.IH [OF this] obtain s' where
    "drop t (run_loop db s1 rest) = run_loop db s' (drop t rest)" by blast
  then show ?case using tr frs by auto
qed

lemma persistence_from_start:
  assumes "21 < length (run_loop db s frs)"
    and "cycle (run_loop db s frs ! 0) = Some (Inr rs)" and "rs \<noteq> []"
    and "\<forall>j. 0 < j \<and> j \<le> 21 \<longrightarrow> \<not> successful (run_loop db s frs ! j)"
  shows "(\<forall>j\<le>20. drawn (run_loop db s frs ! j) = rs) \<and> drawn (run_loop db s frs ! 21) = []"
proof -
  obtain fr rest where frs: "frs = fr # rest" using assms(1) by (cases frs) auto
  from assms(1) frs have r: "ret fr" by (auto split: if_splits)
  define s' where "s' = fst (step db s fr)"
  define ob where "ob = snd (step db s fr)"
  have st: "step db s fr = (s', ob)" by (simp add: s'_def ob_def)
  from assms(1) frs r st have nq: "wait_key fr \<noteq> KeyQ" by (auto split: if_splits)
  have tr: "run_loop db s frs = ob # run_loop db s' rest" using frs r st nq by simp
  have "cycle ob = Some (Inr rs)" using assms(2) tr by simp
  then have su: "frames_without_detection s' = 0" "active_faces s' = rs" "drawn ob = rs"
    using step_success [of db s fr rs] assms(3) by (simp_all add: s'_def ob_def)
  have len: "20 < length (run_loop db s' rest)" using assms(1) tr by simp
  have later: "drawn (run_loop db s' rest ! k) = (if int k + 1 > 20 then [] else rs)"
    if "k \<le> 20" for k
  proof -
    have "k < length (run_loop db s' rest)" using that len by simp
    moreover have "\<forall>i\<le>k. \<not> successful (run_loop db s' rest ! i)"
    proof (intro allI impI)
      fix i assume "i \<le> k"
      then have "0 < Suc i \<and> Suc i \<le> 21" using that by simp
      then have "\<not> successful (run_loop db s frs ! Suc i)" using assms(4) by blast
      then show "\<not> successful (run_loop db s' rest ! i)" using tr by simp
    qed
    ultimately show ?thesis using aging [of k db s' rest] su by simp
  qed
  have "drawn (run_loop db s frs ! j) = rs" if "j \<le> 20" for j
  proof (cases j)
    case 0
    then show ?thesis using tr su by simp
  next
    case (Suc k)
    then have "k \<le> 20" "int k + 1 \<le> 20" using that by simp_all
    then show ?thesis using later [of k] tr Suc by simp
  qed
  moreover have "drawn (run_loop db s frs ! 21) = []"
  proof -
    have "run_loop db s frs ! 21 = run_loop db s' rest ! 20" using tr by simp
    then show ?thesis using later [of 20] by simp
  qed
  ultimately show ?thesis by blast
qed

text \<open>
  C1. In a run from any state: when the cycle of the frame at position \<open>t\<close> ends with a
  non-empty result list \<open>rs\<close> and no cycle of the next 21 frames is successful, the
  active faces drawn on the frames \<open>t\<close> to \<open>t + 20\<close> are exactly \<open>rs\<close>, and on frame
  \<open>t + 21\<close> nothing is drawn.
\<close>

theorem persistence_window:
  assumes "t + 21 < length (run_loop db s frs)"
    and "cycle (run_loop db s frs ! t) = Some (Inr rs)" and "rs \<noteq> []"
    and "\<forall>j. t < j \<and> j \<le> t + 21 \<longrightarrow> \<not> successful (run_loop db s frs ! j)"
  shows "(\<forall>j. t \<le> j \<and> j \<le> t + 20 \<longrightarrow> drawn (run_loop db s frs ! j) = rs)
       \<and> drawn (run_loop db s frs ! (t + 21)) = []"
proof -
  have "t < length (run_loop db s frs)" using assms(1) by simp
  then obtain s' where d: "drop t (run_loop db s frs) = run_loop db s' (drop t frs)"
    using run_loop_drop by blast
  have nth: "run_loop db s' (drop t frs) ! k = run_loop db s frs ! (t + k)"
    if "t + k < length (run_loop db s frs)" for k
    using that d [symmetric] by simp
  have l: "21 < length (run_loop db s' (drop t frs))"
    using assms(1) d [symmetric] by simp
  have c: "cycle (run_loop db s' (drop t frs) ! 0) = Some (Inr rs)"
    using nth [of 0] assms(1,2) by simp
  have n: "\<forall>j. 0 < j \<and> j \<le> 21 \<longrightarrow> \<not> successful (run_loop db s' (drop t frs) ! j)"
  proof (intro allI impI)
    fix j :: nat assume j: "0 < j \<and> j \<le> 21"
    then have "t < t + j \<and> t + j \<le> t + 21" by simp
    then have "\<not> successful (run_loop db s frs ! (t + j))" using assms(4) by blast
    then show "\<not> successful (run_loop db s' (drop t frs) ! j)"
      using nth [of j] j assms(1) by simp
  qed
  from persistence_from_start [OF l c assms(3) n]
  have p: "\<forall>j\<le>20. drawn (run_loop db s' (drop t frs) ! j) = rs"
    "drawn (run_loop db s' (drop t frs) ! 21) = []" by simp_all
  have "drawn (run_loop db s frs ! j) = rs" if "t \<le> j \<and> j \<le> t + 20" for j
  proof -
    have a: "j - t \<le> 20" and b: "t + (j - t) = j" using that by linarith+
    from p(1) a have "drawn (run_loop db s' (drop t frs) ! (j - t)) = rs" by blast
    moreover have "run_loop db s' (drop t frs) ! (j - t) = run_loop db s frs ! j"
      using nth [of "j - t"] b assms(1) that by simp
    ultimately show ?thesis by simp
  qed
  moreover have "drawn (run_loop db s frs ! (t + 21)) = []"
    using p(2) nth [of 21] assms(1) by simp
  ultimately show ?thesis by blast
qed

section \<open>The example frames\<close>

lemmas ex_defs = example_database_def left_face_def right_face_def raising_on_def
  two_face_frame_def one_face_frame_def no_face_frame_def before_cycle_def

lemma region_left: "face_region (480, 640) (10, 10, 100, 100) = (0, 125, 0, 125)"
  by (simp add: face_region_def py_int_def Let_def)

lemma region_right: "face_region (480, 640) (300, 10, 100, 100) = (0, 125, 285, 415)"
  by (simp add: face_region_def py_int_def Let_def)

lemma crop_left: "crop (480, 640) 0 125 0 125 = (125, 125)"
  by (simp add: crop_def slice_len_def slice_index_def)

lemma crop_right: "crop (480, 640) 0 125 285 415 = (125, 130)"
  by (simp add: crop_def slice_len_def slice_index_def)

lemma embed_right: "get_face_embedding two_face_frame (0, 125, 285, 415) = Inr [1]"
  by (simp add: get_face_embedding_def ex_defs crop_right cv2_resize_def IMAGE_SIZE_def np_norm_def Let_def)

lemma embed_left: "get_face_embedding two_face_frame (0, 125, 0, 125) = Inl ExternalError"
  by (simp add: get_face_embedding_def ex_defs crop_left cv2_resize_def IMAGE_SIZE_def np_norm_def Let_def)

lemma match_example: "recognize_face example_database [1] True = Inr (Some ''Ana'', 0)"
  by (simp add: recognize_face_def recognize_face_with_def DISTANCE_THRESHOLD_def ex_defs
      cosine_distance_def np_dot_def dot_def np_argmin_def)

lemma survives_right: "survives two_face_frame right_face"
  using region_right crop_right
  by (simp add: survives_def two_face_frame_def right_face_def CONFIDENCE_THRESHOLD_def image_size_def)

lemma survives_left: "survives two_face_frame left_face"
  using region_left crop_left
  by (simp add: survives_def two_face_frame_def left_face_def CONFIDENCE_THRESHOLD_def image_size_def)

lemma fails_left: "fails example_database True two_face_frame left_face ExternalError"
  using region_left embed_left
  by (simp add: fails_def two_face_frame_def left_face_def)


lemma step_one_face:
  "step example_database before_cycle one_face_frame =
     (\<lparr>use_cosine = True, frame_count = 15, frames_without_detection = 0,
       active_faces = [\<lparr>face_detection = right_face, face_name = Some ''Ana'',
                         face_distance = 0\<rparr>]\<rparr>,
      \<lparr>cycle = Some (Inr [\<lparr>face_detection = right_face, face_name = Some ''Ana'',
                            face_distance = 0\<rparr>]),
       embedded = [right_face],
       drawn = [\<lparr>face_detection = right_face, face_name = Some ''Ana'',
                  face_distance = 0\<rparr>]\<rparr>)"
proof -
  have e: "get_face_embedding one_face_frame (0, 125, 285, 415) = Inr [1]"
    by (simp add: get_face_embedding_def ex_defs crop_right cv2_resize_def IMAGE_SIZE_def
        np_norm_def Let_def)
  have p: "process_detections example_database True one_face_frame [right_face] []
      = ([right_face], Inr [\<lparr>face_detection = right_face, face_name = Some ''Ana'',
                            face_distance = 0\<rparr>])"
    using e match_example crop_right
    by (simp add: one_face_frame_def right_face_def CONFIDENCE_THRESHOLD_def image_size_def
        region_right)
  show ?thesis
    using p
    by (simp add: step_def detection_phase_def Let_def process_every_n_frames_def
        PERSISTENCE_LIMIT_def before_cycle_def one_face_frame_def)
qed



lemma run_loop_length:
  "\<forall>fr\<in>set frs. ret fr \<and> wait_key fr \<noteq> KeyQ \<Longrightarrow> length (run_loop db s frs) = length frs"
  by (induction frs arbitrary: s) (auto split: prod.splits)

lemma no_detections_unsuccessful:
  "detect_faces fr = Inr [] \<Longrightarrow> \<not> successful (snd (step db s fr))"
  by (simp add: step_def detection_phase_def successful_def Let_def)

lemma run_loop_unsuccessful:
  "\<forall>fr\<in>set frs. detect_faces fr = Inr [] \<Longrightarrow> ob \<in> set (run_loop db s frs)
   \<Longrightarrow> \<not> successful ob"
proof (induction frs arbitrary: s)
  case Nil
  then show ?case by simp
next
  case (Cons fr frs)
  obtain s' ob' where st: "step db s fr = (s', ob')" by (cases "step db s fr")
  have "\<not> successful ob'"
    using no_detections_unsuccessful [of fr db s] Cons.prems(1) st by simp
  moreover have "ob \<in> set (run_loop db s' frs) \<Longrightarrow> \<not> successful ob"
    using Cons.IH [of s'] Cons.prems(1) by simp
  ultimately show ?case
    using Cons.prems(2) st by (auto split: if_splits)
qed


theorem persistence_window_witness:
  "0 + 21 < length (run_loop example_database before_cycle
                      (one_face_frame # replicate 21 no_face_frame))
   \<and> cycle (run_loop example_database before_cycle
               (one_face_frame # replicate 21 no_face_frame) ! 0)
       = Some (Inr [\<lparr>face_detection = right_face, face_name = Some ''Ana'',
                      face_distance = 0\<rparr>])
   \<and> drawn (run_loop example_database before_cycle
               (one_face_frame # replicate 21 no_face_frame) ! 20)
       = [\<lparr>face_detection = right_face, face_name = Some ''Ana'', face_distance = 0\<rparr>]
   \<and> drawn (run_loop example_database before_cycle
               (one_face_frame # replicate 21 no_face_frame) ! (0 + 21)) = []"
proof -
  let ?rs = "[\<lparr>face_detection = right_face, face_name = Some ''Ana'', face_distance = 0\<rparr>]"
  let ?frs = "one_face_frame # replicate 21 no_face_frame"
  let ?tr = "run_loop example_database before_cycle ?frs"
  obtain s1 ob0 where st: "step example_database before_cycle one_face_frame = (s1, ob0)"
    and ob0: "cycle ob0 = Some (Inr ?rs)"
    using step_one_face by simp
  have tr: "?tr = ob0 # run_loop example_database s1 (replicate 21 no_face_frame)"
    using st by (simp add: one_face_frame_def)
  have "\<forall>fr\<in>set ?frs. ret fr \<and> wait_key fr \<noteq> KeyQ"
    by (simp add: one_face_frame_def no_face_frame_def)
  then have "length ?tr = length ?frs" by (rule run_loop_length)
  then have len: "length ?tr = 22" by simp
  then have h1: "0 + 21 < length ?tr" by simp
  have h2: "cycle (?tr ! 0) = Some (Inr ?rs)" using tr ob0 by simp
  have h3: "?rs \<noteq> []" by simp
  have h4: "\<forall>j. 0 < j \<and> j \<le> 0 + 21 \<longrightarrow> \<not> successful (?tr ! j)"
  proof (intro allI impI)
    fix j :: nat assume j: "0 < j \<and> j \<le> 0 + 21"
    then obtain k where k: "j = Suc k" by (cases j) auto
    have "k < length (run_loop example_database s1 (replicate 21 no_face_frame))"
      using len tr j k by simp
    then have "run_loop example_database s1 (replicate 21 no_face_frame) ! k
        \<in> set (run_loop example_database s1 (replicate 21 no_face_frame))"
      by (rule nth_mem)
    moreover have "\<forall>fr\<in>set (replicate 21 no_face_frame). detect_faces fr = Inr []"
      by (simp add: no_face_frame_def)
    ultimately have "\<not> successful (run_loop example_database s1 (replicate 21 no_face_frame) ! k)"
      using run_loop_unsuccessful by blast
    then show "\<not> successful (?tr ! j)" using tr k by simp
  qed
  from persistence_window [OF h1 h2 h3 h4]
  have "drawn (?tr ! 20) = ?rs" "drawn (?tr ! (0 + 21)) = []" by simp_all
  then show ?thesis using h1 h2 by blast
qed

section \<open>A failing detection\<close>

text \<open>
  C3, as stated, fails. In a cycle over the two confident faces of the example frame the
  embedding model raises on the crop of the first. The second face survives, and its
  embedding and its match would succeed, yet the cycle ends with the exception after the
  first face: the second is never handed to the embedding step.
\<close>

theorem failed_detection_isolation_counterexample:
  "survives two_face_frame right_face
   \<and> get_face_embedding two_face_frame (face_region (frame two_face_frame) (box right_face))
       = Inr [1]
   \<and> recognize_face example_database [1] True = Inr (Some ''Ana'', 0)
   \<and> process_detections example_database True two_face_frame [left_face, right_face] []
       = ([left_face], Inl ExternalError)
   \<and> right_face \<notin> set (fst (process_detections example_database True two_face_frame
                                [left_face, right_face] []))"
proof -
  have r: "face_region (frame two_face_frame) (box right_face) = (0, 125, 285, 415)"
    using region_right by (simp add: two_face_frame_def right_face_def)
  have p: "process_detections example_database True two_face_frame [left_face, right_face] []
       = ([left_face], Inl ExternalError)"
    using survives_left fails_left
    by (auto simp: survives_def fails_def split: sum.splits)
  have "right_face \<noteq> left_face" by (simp add: left_face_def right_face_def)
  then show ?thesis using survives_right embed_right match_example r p by simp
qed

lemma process_detections_append:
  assumes "process_detections db uc fr before cur = (h1, Inr cur1)"
  shows "process_detections db uc fr (before @ rest) cur
         = (h1 @ fst (process_detections db uc fr rest cur1),
            snd (process_detections db uc fr rest cur1))"
  using assms
proof (induction before arbitrary: cur h1)
  case Nil
  then show ?case by simp
next
  case (Cons d ds)
  show ?case
  proof (cases "survives fr d")
    case False
    then have skip: "\<And>l c. process_detections db uc fr (d # l) c = process_detections db uc fr l c"
      by (auto simp: survives_def)
    from Cons.prems have "process_detections db uc fr ds cur = (h1, Inr cur1)"
      by (simp only: skip)
    from Cons.IH [OF this] show ?thesis by (simp only: skip append_Cons)
  next
    case True
    then have sv: "\<not> confidence d < CONFIDENCE_THRESHOLD"
      "image_size (case face_region (frame fr) (box d) of
                       (y1, y2, x1, x2) \<Rightarrow> crop (frame fr) y1 y2 x1 x2) \<noteq> 0"
      by (simp_all add: survives_def)
    from Cons.prems sv obtain emb name distance h' where
      e: "get_face_embedding fr (face_region (frame fr) (box d)) = Inr emb"
      and r: "recognize_face db emb uc = Inr (name, distance)"
      and p: "process_detections db uc fr ds
               (cur @ [\<lparr>face_detection = d, face_name = name, face_distance = distance\<rparr>])
              = (h', Inr cur1)"
      and h: "h1 = d # h'"
      by (auto split: sum.splits prod.splits)
    from Cons.IH [OF p] show ?thesis
      using sv e r h by simp
  qed
qed

lemma process_detections_fail_head:
  assumes "survives fr d" "fails db uc fr d e"
  shows "process_detections db uc fr (d # rest) cur = ([d], Inl e)"
  using assms
  by (auto simp: survives_def fails_def split: sum.splits)

text \<open>
  C3, as the code has it. The \<^verbatim>\<open>try\<close> block encloses the whole cycle. When the
  detections before \<open>d\<close> are processed without an exception and processing the surviving
  detection \<open>d\<close> raises \<open>e\<close>, the loop over the detections ends there: the detections
  after \<open>d\<close> are not handed to the embedding step, the cycle ends with \<open>e\<close>, the results
  accumulated so far are dropped (the active faces only age), and the frame loop goes on
  with the next frame.
\<close>

theorem failed_detection_aborts_cycle:
  assumes "(frame_count s + 1) mod 15 = 0"
    and "detect_faces fr = Inr (before @ d # after)"
    and "process_detections db (use_cosine s) fr before [] = (handed, Inr cur)"
    and "survives fr d"
    and "fails db (use_cosine s) fr d e"
  shows "process_detections db (use_cosine s) fr (before @ d # after) [] = (handed @ [d], Inl e)
       \<and> cycle (snd (step db s fr)) = Some (Inl e)
       \<and> embedded (snd (step db s fr)) = handed @ [d]
       \<and> active_faces (fst (step db s fr))
           = (if frames_without_detection s + 1 > 20 then [] else active_faces s)
       \<and> drawn (snd (step db s fr)) = active_faces (fst (step db s fr))
       \<and> (ret fr \<and> wait_key fr \<noteq> KeyQ \<longrightarrow>
            run_loop db s (fr # frs)
            = snd (step db s fr) # run_loop db (fst (step db s fr)) frs)"
proof -
  have pd: "process_detections db (use_cosine s) fr (before @ d # after) []
            = (handed @ [d], Inl e)"
    using process_detections_append [OF assms(3), of "d # after"]
      process_detections_fail_head [OF assms(4,5), of after cur]
    by simp
  have ph: "detection_phase db
              (s\<lparr>frame_count := frame_count s + 1,
                 frames_without_detection := frames_without_detection s + 1\<rparr>) fr
            = (s\<lparr>frame_count := frame_count s + 1,
                  frames_without_detection := frames_without_detection s + 1\<rparr>,
               Some (Inl e), handed @ [d])"
    using assms(1,2) pd by (simp add: detection_phase_def process_every_n_frames_def)
  have c: "cycle (snd (step db s fr)) = Some (Inl e)"
    "embedded (snd (step db s fr)) = handed @ [d]"
    "active_faces (fst (step db s fr))
           = (if frames_without_detection s + 1 > 20 then [] else active_faces s)"
    "drawn (snd (step db s fr)) = active_faces (fst (step db s fr))"
    using ph by (simp_all add: step_def Let_def PERSISTENCE_LIMIT_def)
  have "run_loop db s (fr # frs) = snd (step db s fr) # run_loop db (fst (step db s fr)) frs"
    if "ret fr \<and> wait_key fr \<noteq> KeyQ"
    using that by (simp add: case_prod_beta)
  then show ?thesis using pd c by blast
qed

theorem failed_detection_aborts_cycle_witness:
  "(frame_count before_cycle + 1) mod 15 = 0
   \<and> detect_faces two_face_frame = Inr ([] @ left_face # [right_face])
   \<and> survives two_face_frame left_face
   \<and> fails example_database (use_cosine before_cycle) two_face_frame left_face ExternalError
   \<and> cycle (snd (step example_database before_cycle two_face_frame)) = Some (Inl ExternalError)
   \<and> embedded (snd (step example_database before_cycle two_face_frame)) = [left_face]
   \<and> drawn (snd (step example_database before_cycle two_face_frame)) = []"
proof -
  have h1: "(frame_count before_cycle + 1) mod 15 = 0"
    by (simp add: before_cycle_def)
  have h2: "detect_faces two_face_frame = Inr ([] @ left_face # [right_face])"
    by (simp add: two_face_frame_def)
  have h3: "process_detections example_database (use_cosine before_cycle) two_face_frame [] []
            = ([], Inr [])"
    by simp
  have h4: "survives two_face_frame left_face"
    by (rule survives_left)
  have h5: "fails example_database (use_cosine before_cycle) two_face_frame left_face
              ExternalError"
    using fails_left by (simp add: before_cycle_def)
  from failed_detection_aborts_cycle [OF h1 h2 h3 h4 h5]
  have c: "cycle (snd (step example_database before_cycle two_face_frame))
             = Some (Inl ExternalError)"
    "embedded (snd (step example_database before_cycle two_face_frame)) = [] @ [left_face]"
    "active_faces (fst (step example_database before_cycle two_face_frame))
       = (if frames_without_detection before_cycle + 1 > 20 then []
          else active_faces before_cycle)"
    "drawn (snd (step example_database before_cycle two_face_frame))
       = active_faces (fst (step example_database before_cycle two_face_frame))"
    by blast+
  have "drawn (snd (step example_database before_cycle two_face_frame)) = []"
    using c(3,4) by (simp add: before_cycle_def)
  then show ?thesis using h1 h2 h4 h5 c(1,2) by simp
qed

end
